theory Spec2Isabelle
  imports Main
begin

section \<open>The tables\<close>

text \<open>
  The migration works on two tables. \<open>stock_events\<close> is the ledger of movements;
  \<open>stock_entries\<close> holds one derived row per (date, location_id, phone_model_id, imei),
  the conflict target of the procedure's upsert.

  A \<open>DATE\<close> is modelled as its day number, so that \<open>+ INTERVAL '1 day'\<close> is \<open>+ 1\<close>;
  a \<open>UUID\<close> as a number. The columns \<open>location_id\<close>, \<open>phone_model_id\<close>, \<open>date\<close>,
  \<open>event_type\<close> and \<open>qty\<close> of an event are taken to be non-null, and \<open>qty\<close> to be an
  integer column; \<open>imei\<close> is nullable, as the procedure itself tests
  \<open>e.imei IS NOT NULL\<close>.
\<close>

type_synonym date = int
type_synonym uuid = nat

record stock_event =
  date :: date
  location_id :: uuid
  phone_model_id :: uuid
  imei :: "string option"
  event_type :: string
  qty :: int

text \<open>
  Of a \<open>stock_entries\<close> row the procedure reads \<open>morning_stock\<close> and \<open>night_stock\<close>,
  both through \<open>COALESCE(., 0)\<close>: they are nullable here. The four aggregate columns
  are only ever written. The audit columns \<open>created_at\<close> and \<open>updated_at\<close> are left out.
\<close>

record stock_entry =
  morning_stock :: "int option"
  incoming :: int
  sold :: int
  returns :: int
  adjustment :: int
  night_stock :: "int option"

text \<open>
  A unit is (location_id, phone_model_id, imei); a row key is the date and the unit.
  The table is a map from keys to rows, as the conflict target of the upsert makes the
  key unique. Rows of \<open>stock_entries\<close> whose \<open>imei\<close> is \<open>NULL\<close> are not part of it: no
  query of the procedure can select one (\<open>imei = v_imei\<close> is never true of \<open>NULL\<close>), and
  the upsert always writes a serial that is not \<open>NULL\<close>.
\<close>

type_synonym unit_id = "uuid \<times> uuid \<times> string"
type_synonym entry_key = "date \<times> unit_id"
type_synonym stock_entries = "entry_key \<rightharpoonup> stock_entry"

text \<open>
  The ways a call can end in an exception. \<open>InvalidRange\<close> is the procedure's own
  \<open>RAISE EXCEPTION 'from_date cannot be greater than to_date'\<close>.
  \<open>NumericValueOutOfRange\<close> is what PL/pgSQL raises when a value assigned to a variable
  declared \<open>INTEGER\<close>, or an \<open>INTEGER\<close> sum, leaves the 32-bit range.
  \<open>StoreRejected\<close> is an \<open>INSERT ... ON CONFLICT\<close> that the table refuses.
  The procedure has no \<open>EXCEPTION\<close> block: each of them ends the call.
\<close>

datatype error = InvalidRange | NumericValueOutOfRange | StoreRejected

text \<open>
  Which rows the table refuses is decided by constraints that the migration does not show,
  so it is a parameter of the model: a predicate on the key and the row to be written.
\<close>

type_synonym store_policy = "entry_key \<Rightarrow> stock_entry \<Rightarrow> bool"

section \<open>The procedure \<open>cascade_recalc_stock\<close>\<close>

definition int4 :: "int \<Rightarrow> bool" where
  "int4 n \<longleftrightarrow> - 2147483648 \<le> n \<and> n \<le> 2147483647"

definition coalesce :: "int option \<Rightarrow> int \<Rightarrow> int" where
  "coalesce v d = (case v of None \<Rightarrow> d | Some x \<Rightarrow> x)"

text \<open>
  The \<open>WHERE\<close> clause of the query that selects the units to recalculate. A filter
  parameter that is \<open>NULL\<close> admits every event.
\<close>

definition in_scope ::
  "date \<Rightarrow> date \<Rightarrow> uuid option \<Rightarrow> uuid option \<Rightarrow> string option \<Rightarrow> stock_event \<Rightarrow> bool" where
  "in_scope p_from_date p_to_date p_location_id p_phone_model_id p_imei e \<longleftrightarrow>
     p_from_date \<le> date e \<and> date e \<le> p_to_date
     \<and> (p_location_id = None \<or> Some (location_id e) = p_location_id)
     \<and> (p_phone_model_id = None \<or> Some (phone_model_id e) = p_phone_model_id)
     \<and> (p_imei = None \<or> imei e = p_imei)
     \<and> imei e \<noteq> None \<and> imei e \<noteq> Some []"

definition unit_of :: "stock_event \<Rightarrow> unit_id option" where
  "unit_of e = (case imei e of None \<Rightarrow> None | Some i \<Rightarrow> Some (location_id e, phone_model_id e, i))"

text \<open>
  \<open>SELECT DISTINCT e.location_id, e.phone_model_id, e.imei\<close>: the units in scope, each
  once. SQL leaves the order of the result open; the model takes the order that
  \<open>remdups\<close> gives the events' units. The order does not matter to a call that
  returns: lemma \<open>cascade_any_order\<close> below shows that the loop over the units ends
  with the same table and counters for every order that names each unit once.
\<close>

definition affected_units ::
  "stock_event list \<Rightarrow> date \<Rightarrow> date \<Rightarrow> uuid option \<Rightarrow> uuid option \<Rightarrow> string option \<Rightarrow> unit_id list" where
  "affected_units evs p_from_date p_to_date p_location_id p_phone_model_id p_imei =
     remdups (List.map_filter
       (\<lambda>e. if in_scope p_from_date p_to_date p_location_id p_phone_model_id p_imei e
            then unit_of e else None) evs)"

text \<open>
  The first query of the day block. A \<open>SELECT ... INTO\<close> that finds no row assigns
  \<open>NULL\<close>. After the first day the previous day's \<open>night_stock\<close> is read; on the first
  day the \<open>morning_stock\<close> of the row of that same day.
\<close>

definition prev_night_stock :: "stock_entries \<Rightarrow> date \<Rightarrow> date \<Rightarrow> unit_id \<Rightarrow> int option" where
  "prev_night_stock st p_from_date v_current_date u =
     (if v_current_date > p_from_date
      then (case st (v_current_date - 1, u) of
              None \<Rightarrow> None | Some r \<Rightarrow> Some (coalesce (night_stock r) 0))
      else (case st (v_current_date, u) of
              None \<Rightarrow> None | Some r \<Rightarrow> Some (coalesce (morning_stock r) 0)))"

text \<open>The events of one day and one unit: the \<open>WHERE\<close> clause of the aggregate query.\<close>

definition day_events :: "stock_event list \<Rightarrow> date \<Rightarrow> unit_id \<Rightarrow> stock_event list" where
  "day_events evs v_current_date u =
     filter (\<lambda>e. date e = v_current_date \<and> location_id e = fst u
                 \<and> phone_model_id e = fst (snd u) \<and> imei e = Some (snd (snd u))) evs"

text \<open>The four \<open>COALESCE(SUM(CASE ...), 0)\<close> columns of the aggregate query.\<close>

definition sum_incoming :: "stock_event list \<Rightarrow> int" where
  "sum_incoming es = sum_list (map (\<lambda>e. if event_type e = ''masuk'' then qty e else 0) es)"

definition sum_sold :: "stock_event list \<Rightarrow> int" where
  "sum_sold es = sum_list (map (\<lambda>e. if event_type e = ''laku'' then qty e else 0) es)"

definition sum_returns :: "stock_event list \<Rightarrow> int" where
  "sum_returns es = sum_list (map (\<lambda>e. if event_type e = ''retur_in'' then qty e else 0) es)"

definition sum_adjustment :: "stock_event list \<Rightarrow> int" where
  "sum_adjustment es = sum_list (map (\<lambda>e.
     if event_type e = ''retur_out'' \<or> event_type e = ''transfer_out'' then - qty e
     else if event_type e = ''transfer_in'' then qty e
     else if event_type e = ''koreksi'' then qty e
     else 0) es)"

text \<open>
  The row of one day, from the opening value and the day's events. The sums land in
  \<open>INTEGER\<close> variables, and \<open>v_night_stock\<close> is computed in \<open>INTEGER\<close> arithmetic from
  left to right: each of these values has to lie in the 32-bit range. Inside the
  aggregate query the quantities are summed exactly.
\<close>

definition calc_entry :: "int \<Rightarrow> stock_event list \<Rightarrow> error + stock_entry" where
  "calc_entry v_morning_stock es =
     (let v_incoming = sum_incoming es;
          v_sold = sum_sold es;
          v_returns = sum_returns es;
          v_adjustment = sum_adjustment es
      in if int4 v_incoming \<and> int4 v_sold \<and> int4 v_returns \<and> int4 v_adjustment
         then if int4 (v_morning_stock + v_incoming)
                 \<and> int4 (v_morning_stock + v_incoming + v_returns)
                 \<and> int4 (v_morning_stock + v_incoming + v_returns - v_sold)
                 \<and> int4 (v_morning_stock + v_incoming + v_returns - v_sold + v_adjustment)
              then Inr \<lparr>morning_stock = Some v_morning_stock, incoming = v_incoming,
                        sold = v_sold, returns = v_returns, adjustment = v_adjustment,
                        night_stock =
                          Some (v_morning_stock + v_incoming + v_returns - v_sold + v_adjustment)\<rparr>
              else Inl NumericValueOutOfRange
         else Inl NumericValueOutOfRange)"

text \<open>
  \<open>INSERT ... ON CONFLICT (date, location_id, phone_model_id, imei) DO UPDATE\<close>: the row
  of that key is created or all six derived columns are overwritten.
\<close>

definition upsert :: "store_policy \<Rightarrow> stock_entries \<Rightarrow> entry_key \<Rightarrow> stock_entry \<Rightarrow> error + stock_entries" where
  "upsert rejects st k r = (if rejects k r then Inl StoreRejected else Inr (st(k \<mapsto> r)))"

text \<open>The block inside the day loop, up to the upsert.\<close>

definition recalc_day ::
  "store_policy \<Rightarrow> stock_event list \<Rightarrow> date \<Rightarrow> unit_id \<Rightarrow> date \<Rightarrow> stock_entries \<Rightarrow> error + stock_entries" where
  "recalc_day rejects evs p_from_date u v_current_date st =
     (let v_prev_night_stock = prev_night_stock st p_from_date v_current_date u;
          v_morning_stock = coalesce v_prev_night_stock 0
      in if int4 v_morning_stock
         then (case calc_entry v_morning_stock (day_events evs v_current_date u) of
                 Inl e \<Rightarrow> Inl e
               | Inr r \<Rightarrow> upsert rejects st (v_current_date, u) r)
         else Inl NumericValueOutOfRange)"

text \<open>
  \<open>WHILE v_current_date <= p_to_date LOOP\<close>, for one unit. The state is the table and
  the two counters \<open>v_days_count\<close> and \<open>v_entries_count\<close>, both \<open>INTEGER\<close>.
\<close>

function recalc_days ::
  "store_policy \<Rightarrow> stock_event list \<Rightarrow> date \<Rightarrow> date \<Rightarrow> unit_id \<Rightarrow> date
     \<Rightarrow> stock_entries \<times> int \<times> int \<Rightarrow> error + stock_entries \<times> int \<times> int" where
  "recalc_days rejects evs p_from_date p_to_date u v_current_date (st, v_days_count, v_entries_count) =
     (if v_current_date \<le> p_to_date
      then (case recalc_day rejects evs p_from_date u v_current_date st of
              Inl e \<Rightarrow> Inl e
            | Inr st' \<Rightarrow>
                if int4 (v_entries_count + 1) \<and> int4 (v_days_count + 1)
                then recalc_days rejects evs p_from_date p_to_date u (v_current_date + 1)
                       (st', v_days_count + 1, v_entries_count + 1)
                else Inl NumericValueOutOfRange)
      else Inr (st, v_days_count, v_entries_count))"
  by pat_completeness auto
termination
  by (relation "measure (\<lambda>(rejects, evs, p_from_date, p_to_date, u, v_current_date, s).
        nat (p_to_date - v_current_date + 1))") auto

declare recalc_days.simps [simp del]

text \<open>The outer \<open>FOR ... IN SELECT DISTINCT ... LOOP\<close>: every unit walks the days from \<open>p_from_date\<close>.\<close>

fun recalc_units ::
  "store_policy \<Rightarrow> stock_event list \<Rightarrow> date \<Rightarrow> date \<Rightarrow> unit_id list
     \<Rightarrow> stock_entries \<times> int \<times> int \<Rightarrow> error + stock_entries \<times> int \<times> int" where
  "recalc_units rejects evs p_from_date p_to_date [] s = Inr s"
| "recalc_units rejects evs p_from_date p_to_date (u # us) s =
     (case recalc_days rejects evs p_from_date p_to_date u p_from_date s of
        Inl e \<Rightarrow> Inl e
      | Inr s' \<Rightarrow> recalc_units rejects evs p_from_date p_to_date us s')"

text \<open>
  The procedure. It returns the table as it leaves it and the row
  (\<open>recalculated_days\<close>, \<open>affected_entries\<close>), or the exception that ended it.
\<close>

definition cascade_recalc_stock ::
  "store_policy \<Rightarrow> stock_event list \<Rightarrow> stock_entries
     \<Rightarrow> date \<Rightarrow> date \<Rightarrow> uuid option \<Rightarrow> uuid option \<Rightarrow> string option
     \<Rightarrow> error + stock_entries \<times> int \<times> int" where
  "cascade_recalc_stock rejects evs st p_from_date p_to_date p_location_id p_phone_model_id p_imei =
     (if p_from_date > p_to_date then Inl InvalidRange
      else recalc_units rejects evs p_from_date p_to_date
             (affected_units evs p_from_date p_to_date p_location_id p_phone_model_id p_imei)
             (st, 0, 0))"

section \<open>The trigger \<open>trigger_cascade_recalc\<close>\<close>

text \<open>
  \<open>trigger_recalc_on_event_change\<close> runs the function after every insert, update or
  delete of a row of \<open>stock_events\<close>. \<open>TG_OP\<close> names the operation; \<open>OLD\<close> is the row
  before it and \<open>NEW\<close> the row after it (\<open>OLD\<close> is not looked at for an insert, nor
  \<open>NEW\<close> for a delete). The events are the table as the trigger finds it, the
  change already made; \<open>current_date\<close> stands for \<open>CURRENT_DATE\<close>. \<open>PERFORM\<close> drops the
  counters, and the function returns the row it was fired for.
\<close>

datatype tg_op = INSERT | UPDATE | DELETE

definition trigger_cascade_recalc ::
  "store_policy \<Rightarrow> stock_event list \<Rightarrow> stock_entries \<Rightarrow> date
     \<Rightarrow> tg_op \<Rightarrow> stock_event \<Rightarrow> stock_event \<Rightarrow> error + stock_entries \<times> stock_event" where
  "trigger_cascade_recalc rejects evs st current_date TG_OP OLD NEW =
     (let (v_date, v_location_id, v_phone_model_id, v_imei) =
            (if TG_OP = DELETE
             then (date OLD, location_id OLD, phone_model_id OLD, imei OLD)
             else (date NEW, location_id NEW, phone_model_id NEW, imei NEW))
      in case cascade_recalc_stock rejects evs st v_date current_date
                (Some v_location_id) (Some v_phone_model_id) v_imei of
           Inl e \<Rightarrow> Inl e
         | Inr (st', counters) \<Rightarrow> Inr (st', if TG_OP = DELETE then OLD else NEW))"

section \<open>What the table holds after a call\<close>


section \<open>The specification's wording\<close>

text \<open>
  The sum of the quantities of the events of one kind, dated one day, for one unit:
  the specification's ``sum of \<open>intake\<close>'', ``sum of \<open>sale\<close>'' and so on.
\<close>

definition spec_kind_total :: "stock_event list \<Rightarrow> date \<Rightarrow> unit_id \<Rightarrow> string \<Rightarrow> int" where
  "spec_kind_total evs d u kind =
     sum_list (map qty (filter (\<lambda>e. date e = d \<and> location_id e = fst u
                                   \<and> phone_model_id e = fst (snd u)
                                   \<and> imei e = Some (snd (snd u)) \<and> event_type e = kind) evs))"

text \<open>
  The specification's ``has at least one event in \<open>[fromDate, toDate]\<close> matching the
  optional filters'', for a unit.
\<close>

definition spec_has_matching_event ::
  "stock_event list \<Rightarrow> date \<Rightarrow> date \<Rightarrow> uuid option \<Rightarrow> uuid option \<Rightarrow> string option
     \<Rightarrow> unit_id \<Rightarrow> bool" where
  "spec_has_matching_event evs p_from_date p_to_date p_location_id p_phone_model_id p_imei u \<longleftrightarrow>
     list_ex (\<lambda>e. location_id e = fst u \<and> phone_model_id e = fst (snd u)
                 \<and> imei e = Some (snd (snd u))
                 \<and> p_from_date \<le> date e \<and> date e \<le> p_to_date
                 \<and> (case p_location_id of None \<Rightarrow> True | Some l \<Rightarrow> location_id e = l)
                 \<and> (case p_phone_model_id of None \<Rightarrow> True | Some m \<Rightarrow> phone_model_id e = m)
                 \<and> (case p_imei of None \<Rightarrow> True | Some i \<Rightarrow> imei e = Some i)) evs"

text \<open>
  The opening of the first day as the specification words it: the stored opening of
  \<open>fromDate\<close> when that row exists, otherwise the closing of the day before, and 0
  when that row is missing too.
\<close>

definition spec_first_opening :: "stock_entries \<Rightarrow> date \<Rightarrow> unit_id \<Rightarrow> int" where
  "spec_first_opening st p_from_date u =
     (case st (p_from_date, u) of
        Some r \<Rightarrow> coalesce (morning_stock r) 0
      | None \<Rightarrow> (case st (p_from_date - 1, u) of
                   Some p \<Rightarrow> coalesce (night_stock p) 0
                 | None \<Rightarrow> 0))"

section \<open>Sample ledgers\<close>

text \<open>Two units at two locations, a table that takes every row and one that refuses a unit.\<close>

definition unit_A :: unit_id where
  "unit_A = (1, 1, ''350000000000017'')"

definition unit_B :: unit_id where
  "unit_B = (2, 1, ''350000000000025'')"

definition accept_all :: store_policy where
  "accept_all k r = False"

definition refuse_unit :: "unit_id \<Rightarrow> store_policy" where
  "refuse_unit u k r = (snd k = u)"

definition event_for :: "unit_id \<Rightarrow> date \<Rightarrow> string \<Rightarrow> int \<Rightarrow> stock_event" where
  "event_for u d kind q =
     \<lparr>date = d, location_id = fst u, phone_model_id = fst (snd u),
      imei = Some (snd (snd u)), event_type = kind, qty = q\<rparr>"

definition entry :: "int \<Rightarrow> int \<Rightarrow> int \<Rightarrow> int \<Rightarrow> int \<Rightarrow> int \<Rightarrow> stock_entry" where
  "entry m i s r a n =
     \<lparr>morning_stock = Some m, incoming = i, sold = s, returns = r, adjustment = a,
      night_stock = Some n\<rparr>"

text \<open>One event of every kind on day 1 for unit A.\<close>

definition ledger_all_kinds :: "stock_event list" where
  "ledger_all_kinds =
     [event_for unit_A 1 ''masuk'' 2, event_for unit_A 1 ''laku'' 1,
      event_for unit_A 1 ''retur_in'' 1, event_for unit_A 1 ''retur_out'' 1,
      event_for unit_A 1 ''transfer_in'' 4, event_for unit_A 1 ''transfer_out'' 1,
      event_for unit_A 1 ''koreksi'' (- 1), event_for unit_A 1 ''koreksi_pagi'' 5]"

text \<open>Unit A opened day 1 with 10, and that day after a call over the events above.\<close>

definition table_opened :: stock_entries where
  "table_opened = [(1, unit_A) \<mapsto> entry 10 0 0 0 0 10]"

definition table_all_kinds :: stock_entries where
  "table_all_kinds = [(1, unit_A) \<mapsto> entry 10 2 1 1 1 13]"

text \<open>Unit A closed day 4 with 5 and has no row for day 5.\<close>

definition table_closed :: stock_entries where
  "table_closed = [(4, unit_A) \<mapsto> entry 5 0 0 0 0 5]"

text \<open>A single intake on day 1, and the table that a call over days 1 and 2 makes of it.\<close>

definition ledger_intake :: "stock_event list" where
  "ledger_intake = [event_for unit_A 1 ''masuk'' 1]"

definition table_intake :: stock_entries where
  "table_intake = [(1, unit_A) \<mapsto> entry 0 1 0 0 0 1, (2, unit_A) \<mapsto> entry 1 0 0 0 0 1]"

section \<open>Unfolding the definitions on the samples\<close>

lemmas eval_simps =
  cascade_recalc_stock_def affected_units_def in_scope_def unit_of_def recalc_days.simps
  recalc_day_def prev_night_stock_def day_events_def calc_entry_def upsert_def
  sum_incoming_def sum_sold_def sum_returns_def sum_adjustment_def int4_def coalesce_def
  accept_all_def refuse_unit_def unit_A_def unit_B_def event_for_def entry_def
  ledger_all_kinds_def table_opened_def table_all_kinds_def ledger_intake_def
  table_intake_def table_closed_def Let_def

section \<open>One day\<close>

lemma recalc_day_InrD:
  assumes "recalc_day rejects evs f u d st = Inr st'"
  shows "\<exists>r. calc_entry (coalesce (prev_night_stock st f d u) 0) (day_events evs d u) = Inr r
             \<and> \<not> rejects (d, u) r \<and> int4 (coalesce (prev_night_stock st f d u) 0)
             \<and> st' = st((d, u) \<mapsto> r)"
  using assms
  by (auto simp: recalc_day_def upsert_def Let_def split: if_splits sum.splits)

lemma recalc_day_InrI:
  assumes "calc_entry (coalesce (prev_night_stock st f d u) 0) (day_events evs d u) = Inr r"
    and "\<not> rejects (d, u) r" and "int4 (coalesce (prev_night_stock st f d u) 0)"
  shows "recalc_day rejects evs f u d st = Inr (st((d, u) \<mapsto> r))"
  using assms by (simp add: recalc_day_def upsert_def Let_def)

lemma calc_entry_InrD:
  assumes "calc_entry m es = Inr r"
  shows "r = \<lparr>morning_stock = Some m, incoming = sum_incoming es, sold = sum_sold es,
              returns = sum_returns es, adjustment = sum_adjustment es,
              night_stock = Some (m + sum_incoming es + sum_returns es - sum_sold es
                                  + sum_adjustment es)\<rparr>"
  using assms by (auto simp: calc_entry_def Let_def split: if_splits)

text \<open>The opening of a day is read from rows of the same unit only.\<close>

lemma prev_night_stock_cong:
  assumes "\<And>d'. st1 (d', u) = st2 (d', u)"
  shows "prev_night_stock st1 f d u = prev_night_stock st2 f d u"
  by (simp add: prev_night_stock_def assms)

text \<open>
  A table is settled for a day of a unit when recalculating that day leaves it as it
  is. Such a table holds the day's row, and the row is the one computed from the
  table's own opening value.
\<close>

lemma settled_row:
  assumes "recalc_day rejects evs f u d st = Inr st"
  shows "\<exists>r. st (d, u) = Some r \<and> \<not> rejects (d, u) r
     \<and> calc_entry (coalesce (prev_night_stock st f d u) 0) (day_events evs d u) = Inr r"
proof -
  from recalc_day_InrD[OF assms] obtain r where
    r: "calc_entry (coalesce (prev_night_stock st f d u) 0) (day_events evs d u) = Inr r"
    and acc: "\<not> rejects (d, u) r" and st: "st = st((d, u) \<mapsto> r)" by blast
  have "st (d, u) = Some r" by (subst st) simp
  with r acc show ?thesis by blast
qed

lemma settled_cong:
  assumes same: "\<And>d'. st1 (d', u) = st2 (d', u)"
    and settled: "recalc_day rejects evs f u d st1 = Inr st1"
  shows "recalc_day rejects evs f u d st2 = Inr st2"
proof -
  from settled_row[OF settled] obtain r where
    here: "st1 (d, u) = Some r" and acc: "\<not> rejects (d, u) r"
    and r: "calc_entry (coalesce (prev_night_stock st1 f d u) 0) (day_events evs d u) = Inr r"
    by blast
  from recalc_day_InrD[OF settled] have m4: "int4 (coalesce (prev_night_stock st1 f d u) 0)"
    by blast
  have p: "prev_night_stock st2 f d u = prev_night_stock st1 f d u"
    by (rule prev_night_stock_cong) (simp add: same)
  have "recalc_day rejects evs f u d st2 = Inr (st2((d, u) \<mapsto> r))"
    by (rule recalc_day_InrI) (simp_all add: p r acc m4)
  moreover have "st2((d, u) \<mapsto> r) = st2"
    by (rule map_upd_triv) (simp add: same[symmetric] here)
  ultimately show ?thesis by simp
qed

section \<open>The walk over the days of one unit\<close>

lemma recalc_days_done:
  "\<not> c \<le> t \<Longrightarrow> recalc_days rejects evs f t u c (st, a, b) = Inr (st, a, b)"
  by (simp add: recalc_days.simps)

lemma recalc_days_InrE:
  assumes "recalc_days rejects evs f t u c (st, a, b) = Inr s'" and "c \<le> t"
  obtains st1 where "recalc_day rejects evs f u c st = Inr st1"
    and "int4 (b + 1) \<and> int4 (a + 1)"
    and "recalc_days rejects evs f t u (c + 1) (st1, a + 1, b + 1) = Inr s'"
proof -
  from assms have
    "(case recalc_day rejects evs f u c st of
        Inl e \<Rightarrow> Inl e
      | Inr st1 \<Rightarrow>
          if int4 (b + 1) \<and> int4 (a + 1)
          then recalc_days rejects evs f t u (c + 1) (st1, a + 1, b + 1)
          else Inl NumericValueOutOfRange) = Inr s'"
    by (subst (asm) recalc_days.simps) simp
  then show thesis
    by (cases "recalc_day rejects evs f u c st") (auto split: if_splits intro: that)
qed

lemma recalc_days_InrI:
  assumes "recalc_day rejects evs f u c st = Inr st1" and "c \<le> t"
    and "int4 (b + 1) \<and> int4 (a + 1)"
    and "recalc_days rejects evs f t u (c + 1) (st1, a + 1, b + 1) = Inr s'"
  shows "recalc_days rejects evs f t u c (st, a, b) = Inr s'"
  by (subst recalc_days.simps) (simp add: assms)

text \<open>The walk from day \<open>c\<close> writes the rows of its unit from \<open>c\<close> to \<open>p_to_date\<close>, no other.\<close>

lemma recalc_days_frame:
  "recalc_days rejects evs f t u c s = Inr s' \<Longrightarrow>
   (\<And>d. c \<le> d \<Longrightarrow> d \<le> t \<Longrightarrow> k \<noteq> (d, u)) \<Longrightarrow> fst s' k = fst s k"
proof (induction rejects evs f t u c s rule: recalc_days.induct)
  case (1 rejects evs f t u c st a b)
  show ?case
  proof (cases "c \<le> t")
    case False
    with "1.prems"(1) show ?thesis by (simp add: recalc_days_done)
  next
    case True
    from "1.prems"(1) True obtain st1 where
      day: "recalc_day rejects evs f u c st = Inr st1"
      and ok: "int4 (b + 1) \<and> int4 (a + 1)"
      and rest: "recalc_days rejects evs f t u (c + 1) (st1, a + 1, b + 1) = Inr s'"
      by (rule recalc_days_InrE)
    from recalc_day_InrD[OF day] obtain r where st1: "st1 = st((c, u) \<mapsto> r)" by blast
    have "fst s' k = fst (st1, a + 1, b + 1) k"
      using "1.IH"[OF True day ok rest] "1.prems"(2) by simp
    also have "\<dots> = st k" using "1.prems"(2)[of c] True by (simp add: st1)
    finally show ?thesis by simp
  qed
qed

text \<open>Both counters grow by the number of days walked.\<close>

lemma recalc_days_counters:
  "recalc_days rejects evs f t u c s = Inr s' \<Longrightarrow>
   fst (snd s') = fst (snd s) + max 0 (t - c + 1)
   \<and> snd (snd s') = snd (snd s) + max 0 (t - c + 1)"
proof (induction rejects evs f t u c s rule: recalc_days.induct)
  case (1 rejects evs f t u c st a b)
  show ?case
  proof (cases "c \<le> t")
    case False
    with "1.prems" show ?thesis by (simp add: recalc_days_done)
  next
    case True
    from "1.prems"(1) True obtain st1 where
      day: "recalc_day rejects evs f u c st = Inr st1"
      and ok: "int4 (b + 1) \<and> int4 (a + 1)"
      and rest: "recalc_days rejects evs f t u (c + 1) (st1, a + 1, b + 1) = Inr s'"
      by (rule recalc_days_InrE)
    from "1.IH"[OF True day ok rest] True show ?thesis by simp
  qed
qed

text \<open>After the walk the table is settled for every day walked.\<close>

lemma recalc_days_settled:
  "recalc_days rejects evs f t u c s = Inr s' \<Longrightarrow> f \<le> c \<Longrightarrow> c \<le> d \<Longrightarrow> d \<le> t \<Longrightarrow>
   recalc_day rejects evs f u d (fst s') = Inr (fst s')"
proof (induction rejects evs f t u c s rule: recalc_days.induct)
  case (1 rejects evs f t u c st a b)
  from "1.prems" have True: "c \<le> t" by simp
  from "1.prems"(1) True obtain st1 where
    day: "recalc_day rejects evs f u c st = Inr st1"
    and ok: "int4 (b + 1) \<and> int4 (a + 1)"
    and rest: "recalc_days rejects evs f t u (c + 1) (st1, a + 1, b + 1) = Inr s'"
    by (rule recalc_days_InrE)
  show ?case
  proof (cases "d = c")
    case False
    with "1.prems" have "c + 1 \<le> d" "f \<le> c + 1" by simp_all
    from "1.IH"[OF True day ok rest this(2) this(1) "1.prems"(4)] show ?thesis .
  next
    case d: True
    let ?m = "coalesce (prev_night_stock st f c u) 0"
    from recalc_day_InrD[OF day] obtain r where
      r: "calc_entry ?m (day_events evs c u) = Inr r"
      and acc: "\<not> rejects (c, u) r" and m4: "int4 ?m"
      and st1: "st1 = st((c, u) \<mapsto> r)" by blast
    have keep: "fst s' k = st1 k" if "\<And>d'. c + 1 \<le> d' \<Longrightarrow> k \<noteq> (d', u)" for k
      using recalc_days_frame[OF rest, of k] that by simp
    have here: "fst s' (c, u) = Some r"
      using keep[of "(c, u)"] by (simp add: st1)
    have before: "fst s' (c - 1, u) = st (c - 1, u)"
      using keep[of "(c - 1, u)"] by (simp add: st1)
    have mr: "morning_stock r = Some ?m"
      using calc_entry_InrD[OF r] by simp
    have same: "coalesce (prev_night_stock (fst s') f c u) 0 = ?m"
    proof (cases "f < c")
      case True
      then show ?thesis by (simp add: prev_night_stock_def before)
    next
      case False
      then show ?thesis by (simp add: prev_night_stock_def here mr coalesce_def)
    qed
    have "recalc_day rejects evs f u c (fst s') = Inr ((fst s')((c, u) \<mapsto> r))"
      by (rule recalc_day_InrI) (simp_all add: same r acc m4)
    moreover have "(fst s')((c, u) \<mapsto> r) = fst s'"
      using here by (rule map_upd_triv)
    ultimately show ?thesis by (simp add: d)
  qed
qed

text \<open>On a table that is settled for the days to walk, the walk changes the counters only.\<close>

lemma recalc_days_replay:
  "recalc_days rejects evs f t u c s = Inr s' \<Longrightarrow>
   (\<And>d. c \<le> d \<Longrightarrow> d \<le> t \<Longrightarrow> recalc_day rejects evs f u d S = Inr S) \<Longrightarrow>
   recalc_days rejects evs f t u c (S, snd s) = Inr (S, snd s')"
proof (induction rejects evs f t u c s rule: recalc_days.induct)
  case (1 rejects evs f t u c st a b)
  show ?case
  proof (cases "c \<le> t")
    case False
    with "1.prems"(1) show ?thesis by (auto simp: recalc_days_done)
  next
    case True
    from "1.prems"(1) True obtain st1 where
      day: "recalc_day rejects evs f u c st = Inr st1"
      and ok: "int4 (b + 1) \<and> int4 (a + 1)"
      and rest: "recalc_days rejects evs f t u (c + 1) (st1, a + 1, b + 1) = Inr s'"
      by (rule recalc_days_InrE)
    have "recalc_days rejects evs f t u (c + 1) (S, snd (st1, a + 1, b + 1)) = Inr (S, snd s')"
      using "1.IH"[OF True day ok rest] "1.prems"(2) by simp
    then have next_days: "recalc_days rejects evs f t u (c + 1) (S, a + 1, b + 1) = Inr (S, snd s')"
      by simp
    have "recalc_day rejects evs f u c S = Inr S"
      using "1.prems"(2)[of c] True by simp
    from recalc_days_InrI[OF this True ok next_days] show ?thesis by simp
  qed
qed

text \<open>
  The walk of a unit looks at the rows of that unit only: on a table with the same
  rows for the unit it does the same to them, and leaves the others as they are.
\<close>

lemma recalc_days_transfer:
  "recalc_days rejects evs f t u c s = Inr s' \<Longrightarrow> (\<And>d. st2 (d, u) = fst s (d, u)) \<Longrightarrow>
   recalc_days rejects evs f t u c (st2, snd s)
     = Inr (\<lambda>key. if snd key = u then fst s' key else st2 key, snd s')"
proof (induction rejects evs f t u c s arbitrary: st2 rule: recalc_days.induct)
  case (1 rejects evs f t u c st a b)
  show ?case
  proof (cases "c \<le> t")
    case False
    with "1.prems"(1) have s': "s' = (st, a, b)" by (simp add: recalc_days_done)
    have "(\<lambda>key. if snd key = u then fst s' key else st2 key) = st2"
      using "1.prems"(2) by (auto simp: fun_eq_iff s')
    then show ?thesis using False by (simp add: s' recalc_days_done)
  next
    case True
    from "1.prems"(1) True obtain st1 where
      day: "recalc_day rejects evs f u c st = Inr st1"
      and ok: "int4 (b + 1) \<and> int4 (a + 1)"
      and rest: "recalc_days rejects evs f t u (c + 1) (st1, a + 1, b + 1) = Inr s'"
      by (rule recalc_days_InrE)
    let ?m = "coalesce (prev_night_stock st f c u) 0"
    from recalc_day_InrD[OF day] obtain r where
      r: "calc_entry ?m (day_events evs c u) = Inr r"
      and acc: "\<not> rejects (c, u) r" and m4: "int4 ?m"
      and st1: "st1 = st((c, u) \<mapsto> r)" by blast
    have p: "prev_night_stock st2 f c u = prev_night_stock st f c u"
      by (rule prev_night_stock_cong) (simp add: "1.prems"(2))
    have day2: "recalc_day rejects evs f u c st2 = Inr (st2((c, u) \<mapsto> r))"
      by (rule recalc_day_InrI) (simp_all add: p r acc m4)
    have agree: "(st2((c, u) \<mapsto> r)) (d, u) = fst (st1, a + 1, b + 1) (d, u)" for d
      using "1.prems"(2) by (simp add: st1)
    have "recalc_days rejects evs f t u (c + 1) (st2((c, u) \<mapsto> r), snd (st1, a + 1, b + 1))
            = Inr (\<lambda>key. if snd key = u then fst s' key else (st2((c, u) \<mapsto> r)) key, snd s')"
      by (rule "1.IH"[OF True day ok rest]) (rule agree)
    moreover have "(\<lambda>key. if snd key = u then fst s' key else (st2((c, u) \<mapsto> r)) key)
                     = (\<lambda>key. if snd key = u then fst s' key else st2 key)"
      by (auto simp: fun_eq_iff)
    ultimately have
      "recalc_days rejects evs f t u (c + 1) (st2((c, u) \<mapsto> r), a + 1, b + 1)
         = Inr (\<lambda>key. if snd key = u then fst s' key else st2 key, snd s')"
      by simp
    from recalc_days_InrI[OF day2 True ok this] show ?thesis by simp
  qed
qed

section \<open>The loop over the units\<close>

lemma recalc_units_ConsE:
  assumes "recalc_units rejects evs f t (u # us) s = Inr s'"
  obtains s1 where "recalc_days rejects evs f t u f s = Inr s1"
    and "recalc_units rejects evs f t us s1 = Inr s'"
  using assms by (cases "recalc_days rejects evs f t u f s") auto

text \<open>Rows of units that are not listed, and rows outside the range, stay.\<close>

lemma recalc_units_frame:
  "recalc_units rejects evs f t us s = Inr s' \<Longrightarrow>
   snd k \<notin> set us \<or> fst k < f \<or> t < fst k \<Longrightarrow> fst s' k = fst s k"
proof (induction us arbitrary: s)
  case Nil
  then show ?case by simp
next
  case (Cons u us)
  from Cons.prems(1) obtain s1 where
    days: "recalc_days rejects evs f t u f s = Inr s1"
    and rest: "recalc_units rejects evs f t us s1 = Inr s'"
    by (rule recalc_units_ConsE)
  have "fst s' k = fst s1 k" using Cons.IH[OF rest] Cons.prems(2) by auto
  also have "\<dots> = fst s k"
    using Cons.prems(2) by (intro recalc_days_frame[OF days]) auto
  finally show ?case .
qed


lemma recalc_units_settled:
  "recalc_units rejects evs f t us s = Inr s' \<Longrightarrow> distinct us \<Longrightarrow> u \<in> set us \<Longrightarrow>
   f \<le> d \<Longrightarrow> d \<le> t \<Longrightarrow> recalc_day rejects evs f u d (fst s') = Inr (fst s')"
proof (induction us arbitrary: s)
  case Nil
  then show ?case by simp
next
  case (Cons v us)
  from Cons.prems(1) obtain s1 where
    days: "recalc_days rejects evs f t v f s = Inr s1"
    and rest: "recalc_units rejects evs f t us s1 = Inr s'"
    by (rule recalc_units_ConsE)
  show ?case
  proof (cases "u = v")
    case False
    with Cons.prems have "u \<in> set us" "distinct us" by simp_all
    from Cons.IH[OF rest this(2) this(1) Cons.prems(4,5)] show ?thesis .
  next
    case True
    with Cons.prems(2) have "u \<notin> set us" by simp
    then have same: "fst s1 (d', u) = fst s' (d', u)" for d'
      using recalc_units_frame[OF rest, of "(d', u)"] by simp
    have "recalc_day rejects evs f u d (fst s1) = Inr (fst s1)"
      using recalc_days_settled[OF days _ Cons.prems(4,5)] True by simp
    with same show ?thesis by (rule settled_cong)
  qed
qed

lemma recalc_units_replay:
  "recalc_units rejects evs f t us s = Inr s' \<Longrightarrow>
   (\<And>u d. u \<in> set us \<Longrightarrow> f \<le> d \<Longrightarrow> d \<le> t \<Longrightarrow> recalc_day rejects evs f u d S = Inr S) \<Longrightarrow>
   recalc_units rejects evs f t us (S, snd s) = Inr (S, snd s')"
proof (induction us arbitrary: s)
  case Nil
  then show ?case by simp
next
  case (Cons u us)
  from Cons.prems(1) obtain s1 where
    days: "recalc_days rejects evs f t u f s = Inr s1"
    and rest: "recalc_units rejects evs f t us s1 = Inr s'"
    by (rule recalc_units_ConsE)
  have "recalc_days rejects evs f t u f (S, snd s) = Inr (S, snd s1)"
    using Cons.prems(2) by (intro recalc_days_replay[OF days]) simp
  moreover have "recalc_units rejects evs f t us (S, snd s1) = Inr (S, snd s')"
    using Cons.prems(2) by (intro Cons.IH[OF rest]) simp
  ultimately show ?case by simp
qed

lemma recalc_units_transfer:
  "recalc_units rejects evs f t us s = Inr s' \<Longrightarrow>
   (\<And>d u. u \<in> set us \<Longrightarrow> st2 (d, u) = fst s (d, u)) \<Longrightarrow>
   recalc_units rejects evs f t us (st2, snd s)
     = Inr (\<lambda>key. if snd key \<in> set us then fst s' key else st2 key, snd s')"
proof (induction us arbitrary: s st2)
  case Nil
  then show ?case by simp
next
  case (Cons u us)
  from Cons.prems(1) obtain s1 where
    days: "recalc_days rejects evs f t u f s = Inr s1"
    and rest: "recalc_units rejects evs f t us s1 = Inr s'"
    by (rule recalc_units_ConsE)
  let ?s2 = "\<lambda>key. if snd key = u then fst s1 key else st2 key"
  have days2: "recalc_days rejects evs f t u f (st2, snd s) = Inr (?s2, snd s1)"
    by (rule recalc_days_transfer[OF days]) (simp add: Cons.prems(2))
  have agree: "?s2 (d, v) = fst s1 (d, v)" if "v \<in> set us" for d v
  proof (cases "v = u")
    case True
    then show ?thesis by simp
  next
    case False
    then have "fst s1 (d, v) = fst s (d, v)"
      by (intro recalc_days_frame[OF days]) simp
    with False that show ?thesis by (simp add: Cons.prems(2))
  qed
  have "recalc_units rejects evs f t us (?s2, snd s1)
          = Inr (\<lambda>key. if snd key \<in> set us then fst s' key else ?s2 key, snd s')"
    by (rule Cons.IH[OF rest]) (rule agree)
  moreover have "(\<lambda>key. if snd key \<in> set us then fst s' key else ?s2 key)
                   = (\<lambda>key. if snd key \<in> set (u # us) then fst s' key else st2 key)"
  proof
    fix key
    show "(if snd key \<in> set us then fst s' key else ?s2 key)
            = (if snd key \<in> set (u # us) then fst s' key else st2 key)"
      using recalc_units_frame[OF rest, of key] by auto
  qed
  ultimately show ?case using days2 by simp
qed

section \<open>The units in scope\<close>

lemma distinct_affected_units: "distinct (affected_units evs f t L M I)"
  by (simp add: affected_units_def)

lemma set_affected_units:
  "set (affected_units evs f t L M I) =
     {(l, m, i). \<exists>e \<in> set evs. in_scope f t L M I e \<and> location_id e = l
        \<and> phone_model_id e = m \<and> imei e = Some i}"
  by (force simp: affected_units_def List.map_filter_def unit_of_def in_scope_def image_iff
      split: if_splits option.splits)

lemma affected_unitsD:
  assumes "(l, m, i) \<in> set (affected_units evs f t L M I)"
  shows "spec_has_matching_event evs f t L M I (l, m, i)" and "i \<noteq> []" and "L = None \<or> L = Some l"
  using assms
  by (auto simp: set_affected_units spec_has_matching_event_def list_ex_iff in_scope_def
      split: option.splits)

section \<open>The aggregate columns\<close>

lemma sum_incoming_total: "sum_incoming (day_events evs d u) = spec_kind_total evs d u ''masuk''"
  by (induction evs) (simp_all add: sum_incoming_def day_events_def spec_kind_total_def)

lemma sum_sold_total: "sum_sold (day_events evs d u) = spec_kind_total evs d u ''laku''"
  by (induction evs) (simp_all add: sum_sold_def day_events_def spec_kind_total_def)

lemma sum_returns_total: "sum_returns (day_events evs d u) = spec_kind_total evs d u ''retur_in''"
  by (induction evs) (simp_all add: sum_returns_def day_events_def spec_kind_total_def)

lemma sum_adjustment_total:
  "sum_adjustment (day_events evs d u) =
     - spec_kind_total evs d u ''retur_out'' - spec_kind_total evs d u ''transfer_out''
     + spec_kind_total evs d u ''transfer_in'' + spec_kind_total evs d u ''koreksi''"
  by (induction evs) (simp_all add: sum_adjustment_def day_events_def spec_kind_total_def)

section \<open>A call that returns\<close>

lemma cascade_InrD:
  assumes "cascade_recalc_stock rejects evs st f t L M I = Inr s'"
  shows "f \<le> t"
    and "recalc_units rejects evs f t (affected_units evs f t L M I) (st, 0, 0) = Inr s'"
  using assms by (simp_all add: cascade_recalc_stock_def split: if_splits)

lemma cascade_settled:
  assumes run: "cascade_recalc_stock rejects evs st f t L M I = Inr (st', n, k)"
    and u: "u \<in> set (affected_units evs f t L M I)" and d: "f \<le> d" "d \<le> t"
  shows "recalc_day rejects evs f u d st' = Inr st'"
  using recalc_units_settled[OF cascade_InrD(2)[OF run] distinct_affected_units u d] by simp

section \<open>The order of the units\<close>

text \<open>
  The counters are checked at every step of a walk, and they only grow: a walk that
  returns has passed the check of its first and of its last step.
\<close>

lemma recalc_days_checked:
  "recalc_days rejects evs f t u c s = Inr s' \<Longrightarrow> c \<le> t \<Longrightarrow>
   int4 (fst (snd s) + 1) \<and> int4 (fst (snd s) + (t - c + 1))
   \<and> int4 (snd (snd s) + 1) \<and> int4 (snd (snd s) + (t - c + 1))"
proof (induction rejects evs f t u c s rule: recalc_days.induct)
  case (1 rejects evs f t u c st a b)
  from "1.prems" obtain st1 where
    day: "recalc_day rejects evs f u c st = Inr st1"
    and ok: "int4 (b + 1) \<and> int4 (a + 1)"
    and rest: "recalc_days rejects evs f t u (c + 1) (st1, a + 1, b + 1) = Inr s'"
    by (rule recalc_days_InrE)
  show ?case
  proof (cases "c + 1 \<le> t")
    case True
    from "1.IH"[OF "1.prems"(2) day ok rest True] ok show ?thesis
      by (simp add: algebra_simps)
  next
    case False
    with "1.prems"(2) have "t - c + 1 = 1" by simp
    with ok show ?thesis by simp
  qed
qed

text \<open>A walk that returns also returns from other counter values that pass those checks.\<close>

lemma recalc_days_recount:
  "recalc_days rejects evs f t u c s = Inr s' \<Longrightarrow>
   (c \<le> t \<Longrightarrow> int4 (a2 + 1) \<and> int4 (a2 + (t - c + 1))
               \<and> int4 (b2 + 1) \<and> int4 (b2 + (t - c + 1))) \<Longrightarrow>
   recalc_days rejects evs f t u c (fst s, a2, b2)
     = Inr (fst s', a2 + max 0 (t - c + 1), b2 + max 0 (t - c + 1))"
proof (induction rejects evs f t u c s arbitrary: a2 b2 rule: recalc_days.induct)
  case (1 rejects evs f t u c st a b)
  show ?case
  proof (cases "c \<le> t")
    case False
    with "1.prems"(1) show ?thesis by (auto simp: recalc_days_done)
  next
    case True
    from "1.prems"(1) True obtain st1 where
      day: "recalc_day rejects evs f u c st = Inr st1"
      and ok: "int4 (b + 1) \<and> int4 (a + 1)"
      and rest: "recalc_days rejects evs f t u (c + 1) (st1, a + 1, b + 1) = Inr s'"
      by (rule recalc_days_InrE)
    from "1.prems"(2)[OF True] have ok2: "int4 (b2 + 1) \<and> int4 (a2 + 1)"
      and last: "int4 (a2 + (t - c + 1))" "int4 (b2 + (t - c + 1))" by simp_all
    have "recalc_days rejects evs f t u (c + 1) (fst (st1, a + 1, b + 1), a2 + 1, b2 + 1)
            = Inr (fst s', a2 + 1 + max 0 (t - (c + 1) + 1), b2 + 1 + max 0 (t - (c + 1) + 1))"
    proof (rule "1.IH"[OF True day ok rest])
      assume "c + 1 \<le> t"
      with ok2 last show "int4 (a2 + 1 + 1) \<and> int4 (a2 + 1 + (t - (c + 1) + 1))
                         \<and> int4 (b2 + 1 + 1) \<and> int4 (b2 + 1 + (t - (c + 1) + 1))"
        by (simp add: int4_def)
    qed
    moreover have "a2 + 1 + max 0 (t - (c + 1) + 1) = a2 + max 0 (t - c + 1)"
      and "b2 + 1 + max 0 (t - (c + 1) + 1) = b2 + max 0 (t - c + 1)"
      using True by simp_all
    ultimately have "recalc_days rejects evs f t u (c + 1) (st1, a2 + 1, b2 + 1)
                       = Inr (fst s', a2 + max 0 (t - c + 1), b2 + max 0 (t - c + 1))"
      by simp
    from recalc_days_InrI[OF day True ok2 this] show ?thesis by simp
  qed
qed

text \<open>Two neighbours in the list of units can change places.\<close>

lemma recalc_units_swap:
  assumes run: "recalc_units rejects evs f t (u # v # ws) s = Inr s'" and uv: "u \<noteq> v"
  shows "recalc_units rejects evs f t (v # u # ws) s = Inr s'"
proof -
  from run obtain s1 where
    du: "recalc_days rejects evs f t u f s = Inr s1"
    and run1: "recalc_units rejects evs f t (v # ws) s1 = Inr s'"
    by (rule recalc_units_ConsE)
  from run1 obtain s2 where
    dv: "recalc_days rejects evs f t v f s1 = Inr s2"
    and rest: "recalc_units rejects evs f t ws s2 = Inr s'"
    by (rule recalc_units_ConsE)
  obtain st a b where s: "s = (st, a, b)" by (cases s)
  obtain st1 a1 b1 where s1: "s1 = (st1, a1, b1)" by (cases s1)
  obtain st2 a2 b2 where s2: "s2 = (st2, a2, b2)" by (cases s2)
  let ?n = "max 0 (t - f + 1)"
  from recalc_days_counters[OF du] have c1: "a1 = a + ?n" "b1 = b + ?n" by (simp_all add: s s1)
  from recalc_days_counters[OF dv] have c2: "a2 = a1 + ?n" "b2 = b1 + ?n" by (simp_all add: s1 s2)
  have frame_u: "st1 key = st key" if "snd key \<noteq> u" for key
  proof -
    have "fst s1 key = fst s key"
      using that by (intro recalc_days_frame[OF du]) auto
    then show ?thesis by (simp add: s s1)
  qed
  have frame_v: "st2 key = st1 key" if "snd key \<noteq> v" for key
  proof -
    have "fst s2 key = fst s1 key"
      using that by (intro recalc_days_frame[OF dv]) auto
    then show ?thesis by (simp add: s1 s2)
  qed
  have frame_u_v: "st1 (d, v) = st (d, v)" for d
    using frame_u[of "(d, v)"] uv by auto
  let ?st1' = "\<lambda>key. if snd key = v then st2 key else st key"
  have "recalc_days rejects evs f t v f (fst s1, a, b) = Inr (fst s2, a + ?n, b + ?n)"
  proof (rule recalc_days_recount[OF dv])
    assume "f \<le> t"
    from recalc_days_checked[OF du this] show
      "int4 (a + 1) \<and> int4 (a + (t - f + 1)) \<and> int4 (b + 1) \<and> int4 (b + (t - f + 1))"
      by (simp add: s)
  qed
  then have "recalc_days rejects evs f t v f (st1, a, b) = Inr (st2, a1, b1)"
    by (simp add: s1 s2 c1)
  then have "recalc_days rejects evs f t v f (st, snd (st1, a, b))
               = Inr (\<lambda>key. if snd key = v then fst (st2, a1, b1) key else st key,
                      snd (st2, a1, b1))"
    by (rule recalc_days_transfer) (simp add: frame_u_v)
  moreover have "(\<lambda>key. if snd key = v then fst (st2, a1, b1) key else st key) = ?st1'"
    by (auto simp: fun_eq_iff)
  ultimately have dv': "recalc_days rejects evs f t v f s = Inr (?st1', a1, b1)"
    by (simp add: s)
  have "recalc_days rejects evs f t u f (fst s, a1, b1) = Inr (fst s1, a1 + ?n, b1 + ?n)"
  proof (rule recalc_days_recount[OF du])
    assume "f \<le> t"
    from recalc_days_checked[OF dv this] show
      "int4 (a1 + 1) \<and> int4 (a1 + (t - f + 1)) \<and> int4 (b1 + 1) \<and> int4 (b1 + (t - f + 1))"
      by (simp add: s1)
  qed
  then have "recalc_days rejects evs f t u f (st, a1, b1) = Inr (st1, a2, b2)"
    by (simp add: s s1 c2)
  then have "recalc_days rejects evs f t u f (?st1', snd (st, a1, b1))
               = Inr (\<lambda>key. if snd key = u then fst (st1, a2, b2) key else ?st1' key,
                      snd (st1, a2, b2))"
    by (rule recalc_days_transfer) (simp add: uv)
  moreover have "(\<lambda>key. if snd key = u then fst (st1, a2, b2) key else ?st1' key) = st2"
    using uv frame_u frame_v by (auto simp: fun_eq_iff)
  ultimately have du': "recalc_days rejects evs f t u f (?st1', a1, b1) = Inr s2"
    by (simp add: s2)
  from dv' du' rest show ?thesis by simp
qed

lemma recalc_units_to_front:
  "recalc_units rejects evs f t (pre @ u # post) s = Inr s' \<Longrightarrow> u \<notin> set pre \<Longrightarrow>
   recalc_units rejects evs f t (u # pre @ post) s = Inr s'"
proof (induction pre arbitrary: s)
  case Nil
  then show ?case by simp
next
  case (Cons p pre)
  from Cons.prems(1) have "recalc_units rejects evs f t (p # (pre @ u # post)) s = Inr s'"
    by simp
  then obtain s1 where
    dp: "recalc_days rejects evs f t p f s = Inr s1"
    and rest: "recalc_units rejects evs f t (pre @ u # post) s1 = Inr s'"
    by (rule recalc_units_ConsE)
  from Cons.IH[OF rest] Cons.prems(2)
  have "recalc_units rejects evs f t (u # pre @ post) s1 = Inr s'" by simp
  with dp have "recalc_units rejects evs f t (p # u # pre @ post) s = Inr s'" by simp
  moreover from Cons.prems(2) have "p \<noteq> u" by auto
  ultimately have "recalc_units rejects evs f t (u # p # pre @ post) s = Inr s'"
    by (rule recalc_units_swap)
  then show ?case by simp
qed

text \<open>
  So the loop over the units ends the same way in whatever order the units come, as
  long as each comes once.
\<close>

lemma recalc_units_order:
  "recalc_units rejects evs f t us s = Inr s' \<Longrightarrow> distinct us \<Longrightarrow> distinct vs \<Longrightarrow>
   set us = set vs \<Longrightarrow> recalc_units rejects evs f t vs s = Inr s'"
proof (induction vs arbitrary: us s)
  case Nil
  then show ?case by simp
next
  case (Cons v vs)
  from Cons.prems(4) have "v \<in> set us" by simp
  then obtain pre post where us: "us = pre @ v # post" by (auto dest: split_list)
  with Cons.prems(2) have notin: "v \<notin> set pre" "v \<notin> set post" and dist: "distinct (pre @ post)"
    by auto
  from recalc_units_to_front[OF Cons.prems(1)[unfolded us] notin(1)] obtain s1 where
    dv: "recalc_days rejects evs f t v f s = Inr s1"
    and rest: "recalc_units rejects evs f t (pre @ post) s1 = Inr s'"
    by (rule recalc_units_ConsE)
  from Cons.prems(3) have "distinct vs" "v \<notin> set vs" by simp_all
  moreover from Cons.prems(4) notin this(2) have "set (pre @ post) = set vs"
    by (auto simp: us)
  ultimately have "recalc_units rejects evs f t vs s1 = Inr s'"
    using Cons.IH[OF rest dist] by simp
  with dv show ?case by simp
qed

lemma cascade_any_order:
  assumes "cascade_recalc_stock rejects evs st f t L M I = Inr s'"
    and "distinct us" and "set us = set (affected_units evs f t L M I)"
  shows "recalc_units rejects evs f t us (st, 0, 0) = Inr s'"
  using recalc_units_order[OF cascade_InrD(2)[OF assms(1)] distinct_affected_units assms(2)] assms(3)
  by simp

section \<open>Range validation\<close>

text \<open>
  C7. A call with \<open>p_from_date > p_to_date\<close> ends in the procedure's own exception,
  whatever the events, the table and the filters are: the answer does not depend
  on any row, and no table comes back changed.
\<close>

theorem invalid_range_rejected:
  "p_to_date < p_from_date \<Longrightarrow>
   cascade_recalc_stock rejects evs st p_from_date p_to_date p_location_id p_phone_model_id p_imei
     = Inl InvalidRange"
  by (simp add: cascade_recalc_stock_def)

theorem invalid_range_rejected_witness:
  "(4::int) < 5
   \<and> cascade_recalc_stock accept_all [] Map.empty 5 4 None None None = Inl InvalidRange"
  using invalid_range_rejected [of 4 5 accept_all "[]" Map.empty None None None] by simp

section \<open>The row of a day\<close>

text \<open>
  C1. After a call that returns, the row of every unit in scope and every day of the
  range holds: as \<open>incoming\<close> the sum of the day's \<open>masuk\<close> quantities, as \<open>sold\<close> the
  sum of the \<open>laku\<close> quantities, as \<open>returns\<close> the sum of the \<open>retur_in\<close> quantities, as
  \<open>adjustment\<close> the \<open>retur_out\<close> and \<open>transfer_out\<close> quantities negated plus the
  \<open>transfer_in\<close> and \<open>koreksi\<close> quantities (no \<open>koreksi_pagi\<close> quantity enters), and as
  \<open>night_stock\<close> its \<open>morning_stock\<close> plus \<open>incoming\<close> plus \<open>returns\<close> minus \<open>sold\<close> plus
  \<open>adjustment\<close>.
\<close>

theorem day_row_aggregates:
  assumes run: "cascade_recalc_stock rejects evs st p_from_date p_to_date
                  p_location_id p_phone_model_id p_imei = Inr (st', n, k)"
    and u: "u \<in> set (affected_units evs p_from_date p_to_date p_location_id p_phone_model_id p_imei)"
    and d: "p_from_date \<le> d" "d \<le> p_to_date"
  shows "\<exists>opening. st' (d, u) = Some
           \<lparr>morning_stock = Some opening,
            incoming = spec_kind_total evs d u ''masuk'',
            sold = spec_kind_total evs d u ''laku'',
            returns = spec_kind_total evs d u ''retur_in'',
            adjustment = - spec_kind_total evs d u ''retur_out'' - spec_kind_total evs d u ''transfer_out''
                         + spec_kind_total evs d u ''transfer_in'' + spec_kind_total evs d u ''koreksi'',
            night_stock = Some (opening + spec_kind_total evs d u ''masuk''
                         + spec_kind_total evs d u ''retur_in'' - spec_kind_total evs d u ''laku''
                         + (- spec_kind_total evs d u ''retur_out'' - spec_kind_total evs d u ''transfer_out''
                            + spec_kind_total evs d u ''transfer_in'' + spec_kind_total evs d u ''koreksi''))\<rparr>"
proof -
  from settled_row[OF cascade_settled[OF run u d]] obtain r where
    here: "st' (d, u) = Some r"
    and r: "calc_entry (coalesce (prev_night_stock st' p_from_date d u) 0) (day_events evs d u) = Inr r"
    by blast
  from calc_entry_InrD[OF r] here show ?thesis
    by (simp add: sum_incoming_total sum_sold_total sum_returns_total sum_adjustment_total)
qed

theorem day_row_aggregates_witness:
  "cascade_recalc_stock accept_all ledger_all_kinds table_opened
       1 1 None None None
     = Inr (table_all_kinds, 1, 1)
   \<and> unit_A \<in> set (affected_units ledger_all_kinds 1 1 None None None)
   \<and> (\<exists>opening. table_all_kinds (1, unit_A) = Some
           \<lparr>morning_stock = Some opening,
            incoming = spec_kind_total ledger_all_kinds 1 unit_A ''masuk'',
            sold = spec_kind_total ledger_all_kinds 1 unit_A ''laku'',
            returns = spec_kind_total ledger_all_kinds 1 unit_A ''retur_in'',
            adjustment = - spec_kind_total ledger_all_kinds 1 unit_A ''retur_out''
                         - spec_kind_total ledger_all_kinds 1 unit_A ''transfer_out''
                         + spec_kind_total ledger_all_kinds 1 unit_A ''transfer_in''
                         + spec_kind_total ledger_all_kinds 1 unit_A ''koreksi'',
            night_stock = Some (opening + spec_kind_total ledger_all_kinds 1 unit_A ''masuk''
                         + spec_kind_total ledger_all_kinds 1 unit_A ''retur_in''
                         - spec_kind_total ledger_all_kinds 1 unit_A ''laku''
                         + (- spec_kind_total ledger_all_kinds 1 unit_A ''retur_out''
                            - spec_kind_total ledger_all_kinds 1 unit_A ''transfer_out''
                            + spec_kind_total ledger_all_kinds 1 unit_A ''transfer_in''
                            + spec_kind_total ledger_all_kinds 1 unit_A ''koreksi''))\<rparr>)"
proof -
  have run: "cascade_recalc_stock accept_all ledger_all_kinds table_opened
               1 1 None None None
             = Inr (table_all_kinds, 1, 1)"
    by (simp add: eval_simps)
  have u: "unit_A \<in> set (affected_units ledger_all_kinds 1 1 None None None)"
    by (simp add: eval_simps)
  from day_row_aggregates[OF run u, of 1] run u show ?thesis by simp
qed

section \<open>Morning corrections\<close>

text \<open>
  C2. The claim: a \<open>koreksi_pagi\<close> event adds its signed quantity to the opening of its
  day, so that a correction of \<open>-1\<close> on day 3, which inherits 1 from day 2, gives day 3
  the opening 0. The procedure has no branch for \<open>koreksi_pagi\<close>: the event counts 0 in
  all four sums and the opening is the inherited value. On the ledger of the claim's
  scenario the call writes opening 1 and closing 1 for day 3.
\<close>

theorem morning_correction_not_applied:
  "cascade_recalc_stock accept_all [event_for unit_A 3 ''koreksi_pagi'' (- 1)]
       [(2, unit_A) \<mapsto> entry 1 0 0 0 0 1] 2 3 None None None
     = Inr ([(2, unit_A) \<mapsto> entry 1 0 0 0 0 1, (3, unit_A) \<mapsto> entry 1 0 0 0 0 1], 2, 2)"
  by (simp add: eval_simps)

section \<open>The opening of the first day\<close>

text \<open>
  C3. The claim: when the table has no row for \<open>p_from_date\<close>, the opening of the first
  day is the closing of the day before, and 0 only when that row is missing too. The
  first-day branch of the procedure reads the row of \<open>p_from_date\<close> alone and never the
  day before. Here the unit closed day 4 with 5 and has no row for day 5, so the
  opening of day 5 has to be 5. A call for day 5 writes opening 0 instead: with an
  intake of 1 the day closes at 1, and with a sale of 1 it closes at \<open>-1\<close>.
\<close>

theorem first_day_ignores_prior_closing:
  "cascade_recalc_stock accept_all [event_for unit_A 5 ''masuk'' 1] table_closed 5 5 None None None
     = Inr (table_closed((5, unit_A) \<mapsto> entry 0 1 0 0 0 1), 1, 1)
   \<and> cascade_recalc_stock accept_all [event_for unit_A 5 ''laku'' 1] table_closed 5 5 None None None
     = Inr (table_closed((5, unit_A) \<mapsto> entry 0 0 1 0 0 (- 1)), 1, 1)
   \<and> morning_stock (entry 0 1 0 0 0 1) = Some 0
   \<and> morning_stock (entry 0 0 1 0 0 (- 1)) = Some 0
   \<and> table_closed (5, unit_A) = None
   \<and> spec_first_opening table_closed 5 unit_A = 5"
  by (simp add: eval_simps spec_first_opening_def)

section \<open>The chain of days\<close>

text \<open>
  C4. After a call that returns, for every unit in scope and every two consecutive
  days \<open>d\<close>, \<open>d + 1\<close> of the range, the closing written for \<open>d\<close> is the opening written
  for \<open>d + 1\<close>. The procedure gives this for every such pair, so also for the pairs the
  claim speaks of, those with no \<open>koreksi_pagi\<close> event on \<open>d + 1\<close>.
\<close>

theorem chain_continuity:
  assumes run: "cascade_recalc_stock rejects evs st p_from_date p_to_date
                  p_location_id p_phone_model_id p_imei = Inr (st', n, k)"
    and u: "u \<in> set (affected_units evs p_from_date p_to_date p_location_id p_phone_model_id p_imei)"
    and d: "p_from_date \<le> d" "d + 1 \<le> p_to_date"
  shows "\<exists>r r' c. st' (d, u) = Some r \<and> st' (d + 1, u) = Some r'
           \<and> night_stock r = Some c \<and> morning_stock r' = Some c"
proof -
  from d have d1: "d \<le> p_to_date" "p_from_date \<le> d + 1" by simp_all
  from settled_row[OF cascade_settled[OF run u d(1) d1(1)]] obtain r where
    here: "st' (d, u) = Some r"
    and r: "calc_entry (coalesce (prev_night_stock st' p_from_date d u) 0) (day_events evs d u) = Inr r"
    by blast
  from settled_row[OF cascade_settled[OF run u d1(2) d(2)]] obtain r' where
    there: "st' (d + 1, u) = Some r'"
    and r': "calc_entry (coalesce (prev_night_stock st' p_from_date (d + 1) u) 0)
               (day_events evs (d + 1) u) = Inr r'"
    by blast
  from calc_entry_InrD[OF r] obtain c where c: "night_stock r = Some c" by simp
  have "prev_night_stock st' p_from_date (d + 1) u = Some c"
    using d(1) by (simp add: prev_night_stock_def here c coalesce_def)
  with calc_entry_InrD[OF r'] have "morning_stock r' = Some c"
    by (simp add: coalesce_def)
  with here there c show ?thesis by blast
qed

theorem chain_continuity_witness:
  "cascade_recalc_stock accept_all ledger_intake Map.empty 1 2 None None None
     = Inr (table_intake, 2, 2)
   \<and> unit_A \<in> set (affected_units ledger_intake 1 2 None None None)
   \<and> (\<exists>r r' c.
         table_intake (1, unit_A) = Some r
         \<and> table_intake (1 + 1, unit_A) = Some r'
         \<and> night_stock r = Some c \<and> morning_stock r' = Some c)"
proof -
  have run: "cascade_recalc_stock accept_all ledger_intake Map.empty
               1 2 None None None
             = Inr (table_intake, 2, 2)"
    by (simp add: eval_simps)
  have u: "unit_A \<in> set (affected_units ledger_intake 1 2 None None None)"
    by (simp add: eval_simps)
  have "\<exists>r r' c.
         table_intake (1, unit_A) = Some r
         \<and> table_intake (1 + 1, unit_A) = Some r'
         \<and> night_stock r = Some c \<and> morning_stock r' = Some c"
    by (rule chain_continuity[OF run u]) simp_all
  with run u show ?thesis by blast
qed

section \<open>Running the same call again\<close>

text \<open>
  C5. When a call has returned, the same call on the table it left, the events
  unchanged, returns again, with the same table and the same counters: every row
  keeps its six derived columns.
\<close>

theorem recalc_idempotent:
  assumes run: "cascade_recalc_stock rejects evs st p_from_date p_to_date
                  p_location_id p_phone_model_id p_imei = Inr (st', n, k)"
  shows "cascade_recalc_stock rejects evs st' p_from_date p_to_date
           p_location_id p_phone_model_id p_imei = Inr (st', n, k)"
proof -
  let ?us = "affected_units evs p_from_date p_to_date p_location_id p_phone_model_id p_imei"
  have "recalc_units rejects evs p_from_date p_to_date ?us (st', snd (st, 0, 0))
          = Inr (st', snd (st', n, k))"
    by (rule recalc_units_replay[OF cascade_InrD(2)[OF run]]) (rule cascade_settled[OF run])
  with cascade_InrD(1)[OF run] show ?thesis
    by (simp add: cascade_recalc_stock_def)
qed

theorem recalc_idempotent_witness:
  "cascade_recalc_stock accept_all ledger_intake Map.empty 1 2 None None None
     = Inr (table_intake, 2, 2)
   \<and> cascade_recalc_stock accept_all ledger_intake
       table_intake 1 2 None None None
     = Inr (table_intake, 2, 2)"
proof -
  have run: "cascade_recalc_stock accept_all ledger_intake Map.empty
               1 2 None None None
             = Inr (table_intake, 2, 2)"
    by (simp add: eval_simps)
  from recalc_idempotent[OF run] run show ?thesis by blast
qed

section \<open>Rows and counters\<close>



section \<open>Units out of scope\<close>

text \<open>
  C9. Take a unit that has no event in the range matching the filters, or whose serial
  is empty, or that lies at another location than the one the call filters on. A call
  that returns leaves every row of that unit as it was. It does not read them either:
  whatever is put in the place of such a row before the call (another row, or none), the
  call returns the same counters and does the same to all other rows.
\<close>

theorem unaffected_units_untouched:
  assumes run: "cascade_recalc_stock rejects evs st p_from_date p_to_date
                  p_location_id p_phone_model_id p_imei = Inr (st', n, k)"
    and out: "\<not> spec_has_matching_event evs p_from_date p_to_date p_location_id p_phone_model_id p_imei u
              \<or> snd (snd u) = [] \<or> (\<exists>l0. p_location_id = Some l0 \<and> fst u \<noteq> l0)"
  shows "st' (d, u) = st (d, u)
     \<and> cascade_recalc_stock rejects evs (st((d, u) := x))
           p_from_date p_to_date p_location_id p_phone_model_id p_imei
         = Inr (st'((d, u) := x), n, k)"
proof -
  let ?us = "affected_units evs p_from_date p_to_date p_location_id p_phone_model_id p_imei"
  note units = cascade_InrD(2)[OF run]
  obtain l m i where lmi: "u = (l, m, i)" by (cases u)
  from out have notin: "u \<notin> set ?us"
    using affected_unitsD[of l m i evs p_from_date p_to_date p_location_id p_phone_model_id p_imei]
    by (auto simp: lmi)
  have frame: "st' key = st key" if "snd key \<notin> set ?us" for key
    using recalc_units_frame[OF units, of key] that by simp
  have "recalc_units rejects evs p_from_date p_to_date ?us (st((d, u) := x), snd (st, 0, 0))
          = Inr (\<lambda>key. if snd key \<in> set ?us then fst (st', n, k) key else (st((d, u) := x)) key,
                 snd (st', n, k))"
    by (rule recalc_units_transfer[OF units]) (use notin in auto)
  moreover have "(\<lambda>key. if snd key \<in> set ?us then fst (st', n, k) key else (st((d, u) := x)) key)
                   = st'((d, u) := x)"
    using notin frame by (auto simp: fun_eq_iff)
  ultimately show ?thesis
    using cascade_InrD(1)[OF run] frame[of "(d, u)"] notin
    by (simp add: cascade_recalc_stock_def)
qed

theorem unaffected_units_untouched_witness:
  "cascade_recalc_stock accept_all ledger_intake [(1, unit_B) \<mapsto> entry 7 0 0 0 0 7]
       1 1 (Some 1) None None
     = Inr ([(1, unit_B) \<mapsto> entry 7 0 0 0 0 7, (1, unit_A) \<mapsto> entry 0 1 0 0 0 1], 1, 1)
   \<and> \<not> spec_has_matching_event ledger_intake 1 1 (Some 1) None None unit_B
   \<and> cascade_recalc_stock accept_all ledger_intake Map.empty 1 1 (Some 1) None None
     = Inr ([(1, unit_A) \<mapsto> entry 0 1 0 0 0 1], 1, 1)"
proof -
  have run: "cascade_recalc_stock accept_all ledger_intake [(1, unit_B) \<mapsto> entry 7 0 0 0 0 7]
               1 1 (Some 1) None None
             = Inr ([(1, unit_B) \<mapsto> entry 7 0 0 0 0 7, (1, unit_A) \<mapsto> entry 0 1 0 0 0 1], 1, 1)"
    by (simp add: eval_simps)
  have out: "\<not> spec_has_matching_event ledger_intake 1 1 (Some 1) None None unit_B"
    by (simp add: spec_has_matching_event_def eval_simps)
  from out have "\<not> spec_has_matching_event ledger_intake 1 1 (Some 1) None None unit_B
              \<or> snd (snd unit_B) = [] \<or> (\<exists>l0. Some 1 = Some l0 \<and> fst unit_B \<noteq> l0)"
    by simp
  from unaffected_units_untouched[OF run this, of 1 None]
  have "cascade_recalc_stock accept_all ledger_intake Map.empty 1 1 (Some 1) None None
          = Inr ([(1, unit_A) \<mapsto> entry 0 1 0 0 0 1], 1, 1)"
    by (simp add: unit_A_def unit_B_def fun_upd_twist)
  with run out show ?thesis by blast
qed

section \<open>A write that the table refuses\<close>




section \<open>What the trigger passes on\<close>

text \<open>
  C6. For an insert and for an update the trigger function calls the procedure with the
  date of the new row, the current date, and the location, model and serial of the new
  row; for a delete with the date, location, model and serial of the row that was
  removed. What the call does to the table, or the exception it ends in, is the
  trigger's own outcome: it runs inside the statement that changed the event.
\<close>

theorem trigger_calls_cascade:
  "map_sum id fst (trigger_cascade_recalc rejects evs st current_date INSERT OLD NEW)
     = map_sum id fst (cascade_recalc_stock rejects evs st (date NEW) current_date
                         (Some (location_id NEW)) (Some (phone_model_id NEW)) (imei NEW))
   \<and> map_sum id fst (trigger_cascade_recalc rejects evs st current_date UPDATE OLD NEW)
     = map_sum id fst (cascade_recalc_stock rejects evs st (date NEW) current_date
                         (Some (location_id NEW)) (Some (phone_model_id NEW)) (imei NEW))
   \<and> map_sum id fst (trigger_cascade_recalc rejects evs st current_date DELETE OLD NEW)
     = map_sum id fst (cascade_recalc_stock rejects evs st (date OLD) current_date
                         (Some (location_id OLD)) (Some (phone_model_id OLD)) (imei OLD))"
proof -
  have "map_sum id fst (case res of Inl e \<Rightarrow> Inl e | Inr (st', counters) \<Rightarrow> Inr (st', row))
          = map_sum id fst res"
    for res :: "error + stock_entries \<times> int \<times> int" and row :: stock_event
    by (cases res) auto
  then show ?thesis by (simp add: trigger_cascade_recalc_def)
qed

theorem trigger_calls_cascade_witness:
  "map_sum id fst (trigger_cascade_recalc accept_all ledger_intake Map.empty 2 INSERT
       (event_for unit_B 9 ''laku'' 1) (event_for unit_A 1 ''masuk'' 1))
     = Inr table_intake
   \<and> map_sum id fst (trigger_cascade_recalc accept_all ledger_intake Map.empty 2 UPDATE
       (event_for unit_B 9 ''laku'' 1) (event_for unit_A 1 ''masuk'' 1))
     = Inr table_intake
   \<and> map_sum id fst (trigger_cascade_recalc accept_all ledger_intake Map.empty 2 DELETE
       (event_for unit_A 1 ''masuk'' 1) (event_for unit_B 9 ''laku'' 1))
     = Inr table_intake"
proof -
  have "cascade_recalc_stock accept_all ledger_intake Map.empty 1 2
          (Some 1) (Some 1) (Some ''350000000000017'') = Inr (table_intake, 2, 2)"
    by (simp add: eval_simps)
  with trigger_calls_cascade[of accept_all ledger_intake Map.empty 2
      "event_for unit_B 9 ''laku'' 1" "event_for unit_A 1 ''masuk'' 1"]
    trigger_calls_cascade[of accept_all ledger_intake Map.empty 2
      "event_for unit_A 1 ''masuk'' 1" "event_for unit_B 9 ''laku'' 1"]
  show ?thesis by (simp add: event_for_def unit_A_def)
qed

end
